theory Spec2Isabelle
  imports Complex_Main "HOL-Library.Sublist" "HOL-Library.AList" "HOL-Library.Log_Nat" "HOL-Library.Multiset"
begin

section \<open>The file system\<close>

text \<open>
  The program (\<^verbatim>\<open>src/main.py\<close>) works on directory trees through \<^verbatim>\<open>pathlib\<close>,
  \<^verbatim>\<open>shutil\<close> and \<^verbatim>\<open>json\<close>. The file system is one tree of regular files and
  directories (no symbolic links, special files or permission bits). A file holds either
  arbitrary bytes or the text of a JSON document, represented by the document that
  \<^verbatim>\<open>json.load\<close> reads from it. A directory is an association list in listing order;
  \<open>map_of\<close> looks a name up and \<open>AList.update\<close> rebinds it.
\<close>

type_synonym name = string
type_synonym path = "name list"

datatype json =
    JNull
  | JBool bool
  | JNum int
  | JStr string
  | JArr "json list"
  | JObj "(string \<times> json) list"

datatype content = Bytes string | JsonText json

datatype node = File content | Dir "(name \<times> node) list"

fun lookup :: "node \<Rightarrow> path \<Rightarrow> node option" where
  "lookup n [] = Some n"
| "lookup (File c) (x # p) = None"
| "lookup (Dir es) (x # p) = (case map_of es x of None \<Rightarrow> None | Some n \<Rightarrow> lookup n p)"

fun is_dir :: "node option \<Rightarrow> bool" where
  "is_dir (Some (Dir es)) = True"
| "is_dir _ = False"

fun is_file :: "node option \<Rightarrow> bool" where
  "is_file (Some (File c)) = True"
| "is_file _ = False"

text \<open>\<open>store p new n\<close> replaces the subtree at \<open>p\<close>; the callers have made sure that
  every proper ancestor of \<open>p\<close> is a directory, and elsewhere nothing is written.\<close>

fun store :: "path \<Rightarrow> node \<Rightarrow> node \<Rightarrow> node" where
  "store [] new n = new"
| "store (x # p) new (File c) = File c"
| "store (x # p) new (Dir es) =
     (if p = [] then Dir (AList.update x new es)
      else (case map_of es x of
              None \<Rightarrow> Dir es
            | Some c \<Rightarrow> Dir (AList.update x (store p new c) es)))"

subsection \<open>Errors\<close>

datatype oserror =
    FileExistsError
  | NotADirectoryError
  | IsADirectoryError
  | FileNotFoundError
  | SameFileError

text \<open>\<open>Error\<close> is \<^verbatim>\<open>shutil.Error\<close>, which carries the list of the failures collected
  by \<^verbatim>\<open>copytree\<close>.\<close>

datatype exn = OSError oserror | Error "oserror list"

subsection \<open>\<^verbatim>\<open>os.makedirs(p, exist_ok=True)\<close> and \<^verbatim>\<open>Path.mkdir(parents=True, exist_ok=True)\<close>\<close>

fun makedirs :: "node option \<Rightarrow> path \<Rightarrow> oserror + node" where
  "makedirs None [] = Inr (Dir [])"
| "makedirs (Some (Dir es)) [] = Inr (Dir es)"
| "makedirs (Some (File c)) [] = Inl FileExistsError"
| "makedirs None (x # p) =
     (case makedirs None p of Inl e \<Rightarrow> Inl e | Inr n \<Rightarrow> Inr (Dir [(x, n)]))"
| "makedirs (Some (File c)) (x # p) = Inl NotADirectoryError"
| "makedirs (Some (Dir es)) (x # p) =
     (case makedirs (map_of es x) p of
        Inl e \<Rightarrow> Inl e
      | Inr n \<Rightarrow> Inr (Dir (AList.update x n es)))"

subsection \<open>\<^verbatim>\<open>shutil.copy2\<close> and \<^verbatim>\<open>shutil.copytree(..., dirs_exist_ok=True)\<close>\<close>

text \<open>\<^verbatim>\<open>os.path.basename\<close> of a resolved path.\<close>

definition basename :: "path \<Rightarrow> name" where
  "basename p = (if p = [] then [] else last p)"

text \<open>
  \<open>copy2 src dst c d\<close> copies the file at \<open>src\<close>, of content \<open>c\<close>, onto the path
  \<open>dst\<close>, whose present state is \<open>d\<close> (its parent directory exists), and returns the
  new state of \<open>dst\<close>. As in \<^verbatim>\<open>shutil\<close>, a destination that is a directory receives
  the file under the source's base name, and \<^verbatim>\<open>copyfile\<close> refuses to copy a file onto
  itself.
\<close>

definition copy2 :: "path \<Rightarrow> path \<Rightarrow> content \<Rightarrow> node option \<Rightarrow> oserror + node" where
  "copy2 src dst c d =
     (case d of
        None \<Rightarrow> Inr (File c)
      | Some (File old) \<Rightarrow> (if src = dst then Inl SameFileError else Inr (File c))
      | Some (Dir ds) \<Rightarrow>
          (case map_of ds (basename src) of
             Some (Dir sub) \<Rightarrow> Inl IsADirectoryError
           | Some (File old) \<Rightarrow>
               (if dst @ [basename src] = src then Inl SameFileError
                else Inr (Dir (AList.update (basename src) (File c) ds)))
           | None \<Rightarrow> Inr (Dir (AList.update (basename src) (File c) ds))))"

fun errors_of :: "exn option \<Rightarrow> oserror list" where
  "errors_of None = []"
| "errors_of (Some (OSError e)) = [e]"
| "errors_of (Some (Error es)) = es"

text \<open>
  \<open>copytree src dst es d\<close> copies the entries \<open>es\<close> of the source directory \<open>src\<close> into
  the path \<open>dst\<close>, whose present state is \<open>d\<close>. It returns the new state of \<open>dst\<close> and
  the exception raised, if any: \<^verbatim>\<open>_copytree\<close> goes on with the remaining entries after
  a failure and raises \<^verbatim>\<open>Error\<close> with all of them at the end, so what was copied stays.
  The list of failures keeps the kind of each error and leaves out the paths and the
  wording that \<^verbatim>\<open>shutil\<close> stores with it.

  The entries of the source are those it had before the copy began. \<^verbatim>\<open>shutil\<close> lists
  each source directory when it reaches it, which is the same thing unless one of the two
  trees lies strictly inside the other; the properties of the merge below are stated for
  trees that do not.
\<close>

fun copytree :: "path \<Rightarrow> path \<Rightarrow> (name \<times> node) list \<Rightarrow> node option \<Rightarrow> node option \<times> exn option"
  and copy_entries ::
    "path \<Rightarrow> path \<Rightarrow> (name \<times> node) list \<Rightarrow> (name \<times> node) list
       \<Rightarrow> (name \<times> node) list \<times> oserror list"
where
  "copytree src dst es None =
     (case copy_entries src dst es [] of
        (ds', errs) \<Rightarrow> (Some (Dir ds'), if errs = [] then None else Some (Error errs)))"
| "copytree src dst es (Some (File c)) = (Some (File c), Some (OSError FileExistsError))"
| "copytree src dst es (Some (Dir ds)) =
     (case copy_entries src dst es ds of
        (ds', errs) \<Rightarrow> (Some (Dir ds'), if errs = [] then None else Some (Error errs)))"
| "copy_entries src dst [] ds = (ds, [])"
| "copy_entries src dst ((nm, File c) # es) ds =
     (case copy2 (src @ [nm]) (dst @ [nm]) c (map_of ds nm) of
        Inl e \<Rightarrow> (case copy_entries src dst es ds of (ds', errs) \<Rightarrow> (ds', e # errs))
      | Inr n \<Rightarrow> copy_entries src dst es (AList.update nm n ds))"
| "copy_entries src dst ((nm, Dir sub) # es) ds =
     (case copytree (src @ [nm]) (dst @ [nm]) sub (map_of ds nm) of
        (d', x) \<Rightarrow>
          (case copy_entries src dst es
                  (case d' of None \<Rightarrow> ds | Some n \<Rightarrow> AList.update nm n ds) of
             (ds', errs) \<Rightarrow> (ds', errors_of x @ errs)))"

section \<open>Path resolution\<close>

text \<open>\<^verbatim>\<open>rel_path.rstrip('/')\<close>.\<close>

definition rstrip_slash :: "string \<Rightarrow> string" where
  "rstrip_slash s = rev (dropWhile (\<lambda>c. c = CHR ''/'') (rev s))"

fun split_slash :: "string \<Rightarrow> string list" where
  "split_slash [] = [[]]"
| "split_slash (c # cs) =
     (if c = CHR ''/'' then [] # split_slash cs
      else (case split_slash cs of [] \<Rightarrow> [[c]] | w # ws \<Rightarrow> (c # w) # ws))"

text \<open>The components of a path string as \<^verbatim>\<open>pathlib\<close> parses it on POSIX: empty
  components and \<^verbatim>\<open>.\<close> are dropped. A component \<^verbatim>\<open>..\<close> is kept as a name, as
  \<^verbatim>\<open>pathlib\<close> keeps it. The operating system then follows it to the parent
  directory, which \<open>lookup\<close> does not do: there a path with a component \<^verbatim>\<open>..\<close> names
  nothing. The properties that depend on where a path leads are therefore stated for
  paths without \<^verbatim>\<open>..\<close>, which is what the checkbox tree produces.\<close>

definition parts :: "string \<Rightarrow> path" where
  "parts s = filter (\<lambda>w. w \<noteq> [] \<and> w \<noteq> ''.'') (split_slash s)"

text \<open>\<^verbatim>\<open>base / s\<close>: an absolute right operand replaces the base.\<close>

definition joinpath :: "path \<Rightarrow> string \<Rightarrow> path" where
  "joinpath base s = (case s of
       [] \<Rightarrow> base
     | c # cs \<Rightarrow> (if c = CHR ''/'' then parts s else base @ parts s))"

section \<open>Progress percentage\<close>

text \<open>
  \<^verbatim>\<open>int((i + 1) / total * 100)\<close> is computed in IEEE-754 binary64: the true division
  of two integers is correctly rounded, so is the product with \<^verbatim>\<open>100\<close>, and \<^verbatim>\<open>int\<close>
  truncates. A positive double is a pair \<open>(m, s)\<close> standing for \<open>m / 2 ^ s\<close> with a
  significand \<open>m\<close> of 53 bits. The values that occur here lie between \<open>2 ^ -63\<close> and
  \<open>100\<close>, far from overflow and from the subnormal range.
\<close>

text \<open>The integer nearest to \<open>n / d\<close>, ties to even.\<close>

definition rne :: "int \<Rightarrow> int \<Rightarrow> int" where
  "rne n d =
     (let q = n div d; r = n mod d
      in if 2 * r < d then q
         else if d < 2 * r then q + 1
         else if even q then q else q + 1)"

text \<open>The double nearest to \<open>n / d\<close>, for positive \<open>n\<close> and \<open>d\<close>.\<close>

definition round53 :: "int \<Rightarrow> int \<Rightarrow> int \<times> int" where
  "round53 n d =
     (let sh = 53 - (bitlen n - bitlen d);
          n1 = (if 0 \<le> sh then n * 2 ^ nat sh else n);
          d1 = (if 0 \<le> sh then d else d * 2 ^ nat (- sh))
      in if 2 ^ 53 * d1 \<le> n1 then (rne n1 (2 * d1), sh - 1) else (rne n1 d1, sh))"

text \<open>\<^verbatim>\<open>int(x)\<close> of a positive double.\<close>

definition trunc_double :: "int \<times> int \<Rightarrow> int" where
  "trunc_double x =
     (case x of (m, s) \<Rightarrow> if 0 \<le> s then m div 2 ^ nat s else m * 2 ^ nat (- s))"

text \<open>\<^verbatim>\<open>x * 100\<close> on a positive double.\<close>

definition times100 :: "int \<times> int \<Rightarrow> int \<times> int" where
  "times100 x =
     (case x of (m, s) \<Rightarrow>
        if 0 \<le> s then round53 (m * 100) (2 ^ nat s)
        else round53 (m * 100 * 2 ^ nat (- s)) 1)"

definition percent :: "nat \<Rightarrow> nat \<Rightarrow> int" where
  "percent k tot = trunc_double (times100 (round53 (int k) (int tot)))"

section \<open>\<^verbatim>\<open>CopyWorker.run\<close>\<close>

text \<open>The signals of the worker. \<open>CopyError rel e\<close> is the message
  \<^verbatim>\<open>f"Copy error for {rel_path}: {str(e)}"\<close>.\<close>

datatype signal = Progress int | CopyError string exn | Finished bool

datatype outcome = Skipped | Copied | Failed exn

text \<open>One round of the loop on the file system \<open>fs\<close>: the file system afterwards and
  what happened to the path.\<close>

definition copy_path :: "path \<Rightarrow> path \<Rightarrow> string \<Rightarrow> node \<Rightarrow> node \<times> outcome" where
  "copy_path source_base dest_base rel_path fs =
     (let src = joinpath source_base (rstrip_slash rel_path);
          dst = joinpath dest_base (rstrip_slash rel_path)
      in case lookup fs src of
           None \<Rightarrow> (fs, Skipped)
         | Some (Dir es) \<Rightarrow>
             (case makedirs (Some fs) dst of
                Inl e \<Rightarrow> (fs, Failed (OSError e))
              | Inr fs1 \<Rightarrow>
                  (case copytree src dst es (lookup fs1 dst) of
                     (d', x) \<Rightarrow>
                       (case d' of None \<Rightarrow> fs1 | Some n \<Rightarrow> store dst n fs1,
                        case x of None \<Rightarrow> Copied | Some e \<Rightarrow> Failed e)))
         | Some (File c) \<Rightarrow>
             (case makedirs (Some fs) (butlast dst) of
                Inl e \<Rightarrow> (fs, Failed (OSError e))
              | Inr fs1 \<Rightarrow>
                  (case copy2 src dst c (lookup fs1 dst) of
                     Inl e \<Rightarrow> (fs1, Failed (OSError e))
                   | Inr n \<Rightarrow> (store dst n fs1, Copied))))"

text \<open>The loop from index \<open>i\<close> on, \<open>tot\<close> being \<^verbatim>\<open>len(self.paths)\<close>.\<close>

fun run_from :: "path \<Rightarrow> path \<Rightarrow> nat \<Rightarrow> nat \<Rightarrow> string list \<Rightarrow> node \<Rightarrow> node \<times> signal list" where
  "run_from source_base dest_base tot i [] fs = (fs, [Finished True])"
| "run_from source_base dest_base tot i (rel_path # rest) fs =
     (case copy_path source_base dest_base rel_path fs of
        (fs', Skipped) \<Rightarrow> run_from source_base dest_base tot (i + 1) rest fs'
      | (fs', Failed e) \<Rightarrow> (fs', [CopyError rel_path e, Finished False])
      | (fs', Copied) \<Rightarrow>
          (case run_from source_base dest_base tot (i + 1) rest fs' of
             (fs'', sigs) \<Rightarrow> (fs'', Progress (percent (i + 1) tot) # sigs)))"

definition run :: "path \<Rightarrow> path \<Rightarrow> string list \<Rightarrow> node \<Rightarrow> node \<times> signal list" where
  "run source_base dest_base paths fs = run_from source_base dest_base (length paths) 0 paths fs"

text \<open>What the worker reports apart from progress.\<close>

fun is_progress :: "signal \<Rightarrow> bool" where
  "is_progress (Progress v) = True"
| "is_progress _ = False"

definition verdict :: "signal list \<Rightarrow> signal list" where
  "verdict sigs = filter (\<lambda>s. \<not> is_progress s) sigs"


text \<open>The scenario of the specification: the source root \<^verbatim>\<open>/game\<close> holds
  \<^verbatim>\<open>db/a.txt\<close> (5 bytes) and \<^verbatim>\<open>log.txt\<close> (3 bytes), the destination root
  \<^verbatim>\<open>/slot\<close> is empty.\<close>

definition scenario_fs :: node where
  "scenario_fs =
     Dir [(''game'', Dir [(''db'', Dir [(''a.txt'', File (Bytes ''hello''))]),
                          (''log.txt'', File (Bytes ''abc''))]),
          (''slot'', Dir [])]"

text \<open>A destination in the way: the source has a file \<^verbatim>\<open>x\<close> where the slot has
  a directory \<^verbatim>\<open>x\<close> holding a directory \<^verbatim>\<open>x\<close>.\<close>

definition clash_fs :: node where
  "clash_fs =
     Dir [(''game'', Dir [(''x'', File (Bytes ''new'')),
                          (''log.txt'', File (Bytes ''abc'')),
                          (''db'', Dir [(''a.txt'', File (Bytes ''hello''))])]),
          (''slot'', Dir [(''x'', Dir [(''x'', Dir [])])])]"

section \<open>Slot metadata\<close>




text \<open>\<^verbatim>\<open>MainWindow.get_save_mode\<close>. Opening a directory, \<^verbatim>\<open>json.load\<close> on a file that
  is not JSON, and \<^verbatim>\<open>.get\<close> on a document that is not an object all raise inside the
  \<^verbatim>\<open>try\<close>, whose bare \<^verbatim>\<open>except\<close> passes on to the final \<^verbatim>\<open>return "Unknown"\<close>.
  The value stored under \<^verbatim>\<open>"mode"\<close> is returned as it is.\<close>

definition get_save_mode :: "node \<Rightarrow> path \<Rightarrow> json" where
  "get_save_mode fs save_dir =
     (let meta_file = save_dir @ [''metadata.json'']
      in case lookup fs meta_file of
           None \<Rightarrow> JStr ''Unknown''
         | Some (Dir es) \<Rightarrow> JStr ''Unknown''
         | Some (File (Bytes b)) \<Rightarrow> JStr ''Unknown''
         | Some (File (JsonText data)) \<Rightarrow>
             (case data of
                JObj kvs \<Rightarrow> (case map_of kvs ''mode'' of None \<Rightarrow> JStr ''Unknown'' | Some v \<Rightarrow> v)
              | _ \<Rightarrow> JStr ''Unknown''))"



definition modeless_slot_fs :: node where
  "modeless_slot_fs =
     Dir [(''saved'', Dir [(''s'', Dir [(''metadata.json'', File (JsonText (JObj [(''note'', JNum 1)])))])])]"

section \<open>The checkbox tree\<close>

text \<open>A \<^verbatim>\<open>QTreeWidgetItem\<close>: its check state in column 0, the relative path stored under
  \<^verbatim>\<open>Qt.UserRole\<close> (\<open>None\<close> when no data was set) and its children in order.\<close>

datatype check_state = Unchecked | PartiallyChecked | Checked

datatype item =
  Item (item_state: check_state) (item_data: "string option") (item_children: "item list")

text \<open>\<^verbatim>\<open>if rel:\<close> holds for a non-empty string.\<close>

fun truthy :: "string option \<Rightarrow> bool" where
  "truthy None = False"
| "truthy (Some s) = (s \<noteq> [])"

text \<open>\<^verbatim>\<open>recurse\<close> appends to the list \<^verbatim>\<open>paths\<close> of the enclosing call, which is passed
  along here.\<close>

fun recurse :: "item \<Rightarrow> string list \<Rightarrow> string list"
  and recurse_children :: "item list \<Rightarrow> string list \<Rightarrow> string list"
where
  "recurse (Item st rel cs) paths =
     recurse_children cs
       (if st = Checked then (if truthy rel then paths @ [the rel] else paths) else paths)"
| "recurse_children [] paths = paths"
| "recurse_children (c # cs) paths = recurse_children cs (recurse c paths)"

definition get_checked_paths :: "item \<Rightarrow> string list" where
  "get_checked_paths invisibleRootItem = recurse invisibleRootItem []"

text \<open>The nodes of a tree depth-first, a node before its children.\<close>

fun preorder :: "item \<Rightarrow> item list" where
  "preorder (Item st rel cs) = Item st rel cs # concat (map preorder cs)"

text \<open>The nodes whose path \<^verbatim>\<open>recurse\<close> appends: checked, with a non-empty path.\<close>

definition selected :: "item \<Rightarrow> bool" where
  "selected n = (item_state n = Checked \<and> truthy (item_data n))"

text \<open>A directory node over one file node, as \<^verbatim>\<open>populate_tree\<close> builds them.\<close>

definition dir_over_file :: "check_state \<Rightarrow> check_state \<Rightarrow> item" where
  "dir_over_file parent_state child_state =
     Item Unchecked None
       [Item parent_state (Some ''db/'') [Item child_state (Some ''db/a.txt'') []]]"

section \<open>Creating a slot\<close>

















section \<open>Listing the slots\<close>










section \<open>Well-formed trees\<close>

text \<open>A directory of a real file system lists every name once.\<close>

fun wf_node :: "node \<Rightarrow> bool" and wf_entries :: "(name \<times> node) list \<Rightarrow> bool" where
  "wf_node (File c) = True"
| "wf_node (Dir es) = (distinct (map fst es) \<and> wf_entries es)"
| "wf_entries [] = True"
| "wf_entries (e # es) = (wf_node (snd e) \<and> wf_entries es)"

text \<open>Looking up below a node that may be absent.\<close>

fun olookup :: "node option \<Rightarrow> path \<Rightarrow> node option" where
  "olookup None q = None"
| "olookup (Some n) q = lookup n q"

text \<open>The source has a file \<^verbatim>\<open>d/a\<close> where the slot has a directory \<^verbatim>\<open>d/a\<close> holding a
  file \<^verbatim>\<open>a\<close>.\<close>

definition nested_fs :: node where
  "nested_fs =
     Dir [(''game'', Dir [(''d'', Dir [(''a'', File (Bytes ''new''))])]),
          (''slot'', Dir [(''d'', Dir [(''a'', Dir [(''a'', File (Bytes ''old''))]),
                                      (''keep'', File (Bytes ''mine''))])])]"

text \<open>A slot that already holds a stale copy of \<^verbatim>\<open>db/a.txt\<close> and a file of its own.\<close>

definition merge_fs :: node where
  "merge_fs =
     Dir [(''game'', Dir [(''db'', Dir [(''a.txt'', File (Bytes ''hello''))]),
                          (''log.txt'', File (Bytes ''abc''))]),
          (''slot'', Dir [(''db'', Dir [(''a.txt'', File (Bytes ''stale'')),
                                       (''b.txt'', File (Bytes ''mine''))])])]"

text \<open>An allowlist entry that \<^verbatim>\<open>pathlib\<close> resolves below the root it is joined to.\<close>

definition relative_path :: "string \<Rightarrow> bool" where
  "relative_path rel = (case rstrip_slash rel of [] \<Rightarrow> True | c # cs \<Rightarrow> c \<noteq> CHR ''/'')"

section \<open>The value of a double\<close>




section \<open>Properties of the copy engine\<close>

lemma run_from_fs_indep:
  "fst (run_from sb db tot i ps fs) = fst (run_from sb db tot' i' ps fs)"
proof (induction ps arbitrary: i i' fs)
  case Nil
  show ?case by simp
next
  case (Cons r ps)
  obtain fs1 out where cp: "copy_path sb db r fs = (fs1, out)" by (cases "copy_path sb db r fs")
  show ?case
  proof (cases out)
    case Skipped
    with cp Cons.IH [of "i + 1" fs1 "i' + 1"] show ?thesis by simp
  next
    case Copied
    with cp Cons.IH [of "i + 1" fs1 "i' + 1"] show ?thesis
      by (simp add: split_beta)
  next
    case (Failed e)
    with cp show ?thesis by simp
  qed
qed

lemma run_from_verdict_indep:
  "verdict (snd (run_from sb db tot i ps fs)) = verdict (snd (run_from sb db tot' i' ps fs))"
proof (induction ps arbitrary: i i' fs)
  case Nil
  show ?case by simp
next
  case (Cons r ps)
  obtain fs1 out where cp: "copy_path sb db r fs = (fs1, out)" by (cases "copy_path sb db r fs")
  show ?case
  proof (cases out)
    case Skipped
    with cp Cons.IH [of "i + 1" fs1 "i' + 1"] show ?thesis by simp
  next
    case Copied
    with cp Cons.IH [of "i + 1" fs1 "i' + 1"] show ?thesis
      by (simp add: split_beta verdict_def)
  next
    case (Failed e)
    with cp show ?thesis by simp
  qed
qed





lemma run_from_append:
  "run_from sb db tot i (pre @ post) fs =
     (case run_from sb db tot i pre fs of (fs1, sigs) \<Rightarrow>
        if Finished True \<in> set sigs
        then (case run_from sb db tot (i + length pre) post fs1 of
                (fs2, sigs2) \<Rightarrow> (fs2, butlast sigs @ sigs2))
        else (fs1, sigs))"
proof (induction pre arbitrary: i fs)
  case Nil
  show ?case by simp
next
  case (Cons r pre)
  obtain fs1 out where cp: "copy_path sb db r fs = (fs1, out)" by (cases "copy_path sb db r fs")
  show ?case
  proof (cases out)
    case Skipped
    with cp Cons.IH [of "i + 1" fs1] show ?thesis by (simp add: split_beta)
  next
    case Copied
    with cp Cons.IH [of "i + 1" fs1] show ?thesis
      by (auto simp add: split_beta butlast_append split: if_splits)
  next
    case (Failed e)
    with cp show ?thesis by simp
  qed
qed

lemma succeeded_iff:
  "(Finished True \<in> set (snd (run_from sb db tot i ps fs))) =
   (verdict (snd (run_from sb db tot i ps fs)) = [Finished True])"
proof (induction ps arbitrary: i fs)
  case Nil
  show ?case by (simp add: verdict_def)
next
  case (Cons r ps)
  obtain fs1 out where cp: "copy_path sb db r fs = (fs1, out)" by (cases "copy_path sb db r fs")
  show ?case
  proof (cases out)
    case Skipped
    with cp Cons.IH [of "i + 1" fs1] show ?thesis by simp
  next
    case Copied
    with cp Cons.IH [of "i + 1" fs1] show ?thesis
      by (simp add: split_beta verdict_def)
  next
    case (Failed e)
    with cp show ?thesis by (simp add: verdict_def)
  qed
qed

lemma succeeded_indep:
  "(Finished True \<in> set (snd (run_from sb db tot i ps fs))) =
   (Finished True \<in> set (snd (run_from sb db tot' i' ps fs)))"
  using run_from_verdict_indep [of sb db tot i ps fs tot' i'] by (simp add: succeeded_iff)

text \<open>
  Claim C2. When the rounds for the paths \<open>pre\<close> have completed and the round for
  \<open>rel\<close> raises \<open>e\<close>, the run ends there: its last two signals are the error
  message naming \<open>rel\<close> and \<open>e\<close> and \<open>Finished False\<close>, whatever paths \<open>post\<close>
  follow, and the file system is the one the failing round left, which was built on the
  state after \<open>pre\<close> (nothing is rolled back).
\<close>

theorem failure_aborts_run:
  assumes "Finished True \<in> set (snd (run sb db pre fs))"
    and "copy_path sb db rel (fst (run sb db pre fs)) = (fs', Failed e)"
  shows "run sb db (pre @ rel # post) fs =
           (fs', butlast (snd (run_from sb db (length (pre @ rel # post)) 0 pre fs))
                 @ [CopyError rel e, Finished False])"
proof -
  define t where "t = length (pre @ rel # post)"
  obtain fs1 sigs where r: "run_from sb db t 0 pre fs = (fs1, sigs)"
    by (cases "run_from sb db t 0 pre fs")
  have ok: "Finished True \<in> set sigs"
    using assms(1) r succeeded_indep [of sb db t 0 pre fs "length pre" 0] by (simp add: run_def)
  have "fs1 = fst (run sb db pre fs)"
    using r run_from_fs_indep [of sb db t 0 pre fs "length pre" 0] by (simp add: run_def)
  with assms(2) have "copy_path sb db rel fs1 = (fs', Failed e)" by simp
  then have "run_from sb db t (0 + length pre) (rel # post) fs1 = (fs', [CopyError rel e, Finished False])"
    by simp
  with r ok have "run_from sb db t 0 (pre @ rel # post) fs = (fs', butlast sigs @ [CopyError rel e, Finished False])"
    by (simp add: run_from_append)
  with r show ?thesis by (simp add: run_def t_def)
qed

theorem failure_aborts_run_witness:
  "run [''game''] [''slot''] [''log.txt'', ''x'', ''db/''] clash_fs =
     (Dir [(''game'', Dir [(''x'', File (Bytes ''new'')),
                          (''log.txt'', File (Bytes ''abc'')),
                          (''db'', Dir [(''a.txt'', File (Bytes ''hello''))])]),
           (''slot'', Dir [(''x'', Dir [(''x'', Dir [])]), (''log.txt'', File (Bytes ''abc''))])],
      [Progress 33, CopyError ''x'' (OSError IsADirectoryError), Finished False])"
proof -
  have a: "Finished True \<in> set (snd (run [''game''] [''slot''] [''log.txt''] clash_fs))"
    by code_simp
  have b: "copy_path [''game''] [''slot''] ''x'' (fst (run [''game''] [''slot''] [''log.txt''] clash_fs)) =
     (Dir [(''game'', Dir [(''x'', File (Bytes ''new'')),
                          (''log.txt'', File (Bytes ''abc'')),
                          (''db'', Dir [(''a.txt'', File (Bytes ''hello''))])]),
           (''slot'', Dir [(''x'', Dir [(''x'', Dir [])]), (''log.txt'', File (Bytes ''abc''))])],
      Failed (OSError IsADirectoryError))"
    by code_simp
  have c: "butlast (snd (run_from [''game''] [''slot''] (length ([''log.txt''] @ ''x'' # [''db/''])) 0 [''log.txt''] clash_fs))
     = [Progress 33]"
    by code_simp
  show ?thesis
    using failure_aborts_run [OF a b, of "[''db/'']"] c by simp
qed

subsection \<open>Reading the tree after a write\<close>

lemma map_of_update: "map_of (AList.update k v al) = (map_of al)(k \<mapsto> v)"
  by (rule update_conv')

lemma lookup_append:
  "lookup fs (p @ q) = (case lookup fs p of None \<Rightarrow> None | Some n \<Rightarrow> lookup n q)"
proof (induction p arbitrary: fs)
  case Nil
  show ?case by simp
next
  case (Cons x p)
  show ?case by (cases fs) (simp_all add: Cons.IH split: option.splits)
qed

lemma lookup_store_same:
  "is_dir (lookup fs (butlast p)) \<Longrightarrow> lookup (store p new fs) p = Some new"
proof (induction p arbitrary: fs)
  case Nil
  show ?case by simp
next
  case (Cons x p)
  show ?case
  proof (cases fs)
    case (File c)
    with Cons.prems show ?thesis by (cases p) simp_all
  next
    case (Dir es)
    show ?thesis
    proof (cases "p = []")
      case True
      with Dir show ?thesis by (simp add: map_of_update)
    next
      case False
      with Dir Cons.prems obtain c where c: "map_of es x = Some c" "is_dir (lookup c (butlast p))"
        by (auto split: option.splits)
      with Dir False Cons.IH [of c] show ?thesis by (simp add: map_of_update)
    qed
  qed
qed

lemma lookup_store_below:
  "is_dir (lookup fs (butlast p)) \<Longrightarrow> lookup (store p new fs) (p @ q) = lookup new q"
  by (simp add: lookup_append lookup_store_same)

lemma lookup_store_other:
  "\<not> prefix p q \<Longrightarrow> \<not> prefix q p \<Longrightarrow> lookup (store p new fs) q = lookup fs q"
proof (induction p arbitrary: fs q)
  case Nil
  then show ?case by simp
next
  case (Cons x p)
  from Cons.prems obtain y q' where q: "q = y # q'" by (cases q) auto
  show ?case
  proof (cases fs)
    case (File c)
    then show ?thesis by simp
  next
    case (Dir es)
    show ?thesis
    proof (cases "x = y")
      case False
      with Dir q show ?thesis by (simp add: map_of_update split: option.splits)
    next
      case True
      with Cons.prems q have np: "\<not> prefix p q'" "\<not> prefix q' p" by simp_all
      then have "p \<noteq> []" by auto
      with Dir q True Cons.IH [OF np] show ?thesis
        by (simp add: map_of_update split: option.splits)
    qed
  qed
qed

lemma makedirs_None: "\<exists>n. makedirs None p = Inr n \<and> is_dir (lookup n p) \<and> (\<forall>q. \<not> prefix q p \<longrightarrow> lookup n q = None)"
proof (induction p)
  case Nil
  show ?case by (auto simp: neq_Nil_conv)
next
  case (Cons x p)
  then obtain n where n: "makedirs None p = Inr n" "is_dir (lookup n p)" "\<forall>q. \<not> prefix q p \<longrightarrow> lookup n q = None"
    by blast
  have "lookup (Dir [(x, n)]) q = None" if "\<not> prefix q (x # p)" for q
    using that n(3) by (cases q) auto
  with n show ?case by simp
qed

lemma makedirs_frame:
  "makedirs (Some fs) p = Inr fs1 \<Longrightarrow> \<not> prefix q p \<Longrightarrow> lookup fs1 q = lookup fs q"
proof (induction p arbitrary: fs fs1 q)
  case Nil
  then show ?case by (cases fs) auto
next
  case (Cons x p)
  from Cons.prems obtain es where fs: "fs = Dir es" by (cases fs) auto
  from Cons.prems obtain y q' where q: "q = y # q'" by (cases q) auto
  from Cons.prems fs obtain n where n: "makedirs (map_of es x) p = Inr n" "fs1 = Dir (AList.update x n es)"
    by (auto split: sum.splits)
  show ?case
  proof (cases "x = y")
    case False
    with fs q n show ?thesis by (simp add: map_of_update)
  next
    case True
    with Cons.prems q have np: "\<not> prefix q' p" by simp
    show ?thesis
    proof (cases "map_of es x")
      case None
      with n makedirs_None [of p] np have "lookup n q' = None" by auto
      with fs q n True None show ?thesis by (simp add: map_of_update)
    next
      case (Some c)
      with n Cons.IH [of c n q'] np have "lookup n q' = lookup c q'" by simp
      with fs q n True Some show ?thesis by (simp add: map_of_update)
    qed
  qed
qed

lemma makedirs_is_dir:
  "makedirs d p = Inr n \<Longrightarrow> is_dir (lookup n p)"
proof (induction d p arbitrary: n rule: makedirs.induct)
qed (auto simp: map_of_update split: sum.splits)

lemma makedirs_prefix_dir:
  "makedirs d p = Inr n \<Longrightarrow> prefix q p \<Longrightarrow> is_dir (lookup n q)"
proof (induction d p arbitrary: n q rule: makedirs.induct)
  case (4 x p)
  then show ?case by (cases q) (auto split: sum.splits)
next
  case (6 es x p)
  then show ?case by (cases q) (auto simp: map_of_update split: sum.splits)
qed auto

section \<open>Properties of the slot metadata\<close>





text \<open>
  Claim C10. When the metadata file holds a JSON document that is not an object with a
  key \<^verbatim>\<open>mode\<close> (an object without that key, or a document that is no object at all),
  \<^verbatim>\<open>get_save_mode\<close> returns \<^verbatim>\<open>"Unknown"\<close>.
\<close>

theorem mode_key_absent_is_unknown:
  assumes "lookup fs (slot @ [''metadata.json'']) = Some (File (JsonText data))"
    and "\<forall>kvs. data = JObj kvs \<longrightarrow> map_of kvs ''mode'' = None"
  shows "get_save_mode fs slot = JStr ''Unknown''"
  using assms by (cases data) (simp_all add: get_save_mode_def)

theorem mode_key_absent_is_unknown_witness:
  "get_save_mode modeless_slot_fs [''saved'', ''s''] = JStr ''Unknown''"
proof -
  have a: "lookup modeless_slot_fs ([''saved'', ''s''] @ [''metadata.json''])
             = Some (File (JsonText (JObj [(''note'', JNum 1)])))"
    by code_simp
  have b: "\<forall>kvs. JObj [(''note'', JNum 1)] = JObj kvs \<longrightarrow> map_of kvs ''mode'' = None"
    by simp
  show ?thesis by (rule mode_key_absent_is_unknown [OF a b])
qed

section \<open>Properties of the checkbox tree\<close>

lemma recurse_acc:
  "recurse t paths = paths @ map (\<lambda>n. the (item_data n)) (filter selected (preorder t))"
  "recurse_children ts paths =
     paths @ map (\<lambda>n. the (item_data n)) (filter selected (concat (map preorder ts)))"
proof (induction t paths and ts paths rule: recurse_recurse_children.induct)
  case (1 st rel cs paths)
  then show ?case by (simp add: selected_def)
next
  case (2 paths)
  show ?case by simp
next
  case (3 c cs paths)
  then show ?case by simp
qed

text \<open>
  Claim C6. \<^verbatim>\<open>get_checked_paths\<close> returns, in depth-first order, the relative paths of
  exactly the nodes that are checked and carry a path, whatever the state of their
  ancestors: over a directory node that is not checked, a checked file node yields the
  file's path alone, and a checked directory node over a file node that is not checked
  yields the directory's path alone.
\<close>

theorem checked_paths_are_checked_nodes:
  "get_checked_paths t = map (\<lambda>n. the (item_data n)) (filter selected (preorder t))
   \<and> (pst \<noteq> Checked \<longrightarrow> get_checked_paths (dir_over_file pst Checked) = [''db/a.txt''])
   \<and> (cst \<noteq> Checked \<longrightarrow> get_checked_paths (dir_over_file Checked cst) = [''db/''])"
  by (simp add: get_checked_paths_def recurse_acc dir_over_file_def selected_def)

theorem checked_paths_are_checked_nodes_witness:
  "get_checked_paths (dir_over_file Unchecked Checked) = [''db/a.txt'']
   \<and> get_checked_paths (dir_over_file Checked Unchecked) = [''db/'']
   \<and> get_checked_paths (dir_over_file Checked Checked) = [''db/'', ''db/a.txt'']"
proof -
  have "get_checked_paths (dir_over_file Checked Checked) = [''db/'', ''db/a.txt'']"
    using checked_paths_are_checked_nodes [of "dir_over_file Checked Checked" Unchecked Unchecked]
    by (simp add: dir_over_file_def selected_def)
  then show ?thesis
    using checked_paths_are_checked_nodes [of "dir_over_file Checked Checked" Unchecked Unchecked]
    by simp
qed

section \<open>Properties of slot creation\<close>






section \<open>Properties of the slot listing\<close>








section \<open>Properties of the directory merge\<close>

lemma wf_entries_iff: "wf_entries es = (\<forall>e \<in> set es. wf_node (snd e))"
  by (induction es) auto

lemma wf_child: "wf_node (Dir es) \<Longrightarrow> map_of es y = Some n \<Longrightarrow> wf_node n"
  by (auto simp: wf_entries_iff dest: map_of_SomeD)

text \<open>What \<open>copy_entries\<close> leaves under each name of the destination.\<close>

lemma copy_entries_map_of:
  "distinct (map fst es) \<Longrightarrow>
   map_of (fst (copy_entries src dst es ds)) y =
     (case map_of es y of
        None \<Rightarrow> map_of ds y
      | Some (File c) \<Rightarrow>
          (case copy2 (src @ [y]) (dst @ [y]) c (map_of ds y) of
             Inl e \<Rightarrow> map_of ds y | Inr n \<Rightarrow> Some n)
      | Some (Dir sub) \<Rightarrow> fst (copytree (src @ [y]) (dst @ [y]) sub (map_of ds y)))"
proof (induction es arbitrary: ds)
  case Nil
  show ?case by simp
next
  case (Cons e es)
  obtain nm n where e: "e = (nm, n)" by (cases e)
  from Cons.prems e have d: "distinct (map fst es)" and nm: "map_of es nm = None"
    by (auto simp: map_of_eq_None_iff)
  show ?case
  proof (cases n)
    case (File c)
    show ?thesis
    proof (cases "copy2 (src @ [nm]) (dst @ [nm]) c (map_of ds nm)")
      case (Inl err)
      with e File Cons.IH [OF d, of ds] nm show ?thesis
        by (auto simp: split_beta split: option.splits node.splits)
    next
      case (Inr n')
      with e File Cons.IH [OF d, of "AList.update nm n' ds"] nm show ?thesis
        by (auto simp: map_of_update split: option.splits node.splits sum.splits)
    qed
  next
    case (Dir sub)
    obtain d' x where ct: "copytree (src @ [nm]) (dst @ [nm]) sub (map_of ds nm) = (d', x)"
      by (cases "copytree (src @ [nm]) (dst @ [nm]) sub (map_of ds nm)")
    show ?thesis
    proof (cases d')
      case None
      with ct have False by (cases "map_of ds nm" rule: is_dir.cases) (auto simp: split_beta)
      then show ?thesis ..
    next
      case (Some n')
      with e Dir ct Cons.IH [OF d, of "AList.update nm n' ds"] nm show ?thesis
        by (auto simp: split_beta map_of_update split: option.splits node.splits sum.splits)
    qed
  qed
qed

lemma copytree_overwrites:
  "wf_node (Dir es) \<Longrightarrow> lookup (Dir es) q = Some (File c) \<Longrightarrow> olookup d q = Some (File c') \<Longrightarrow>
   olookup (fst (copytree src dst es d)) q = Some (File (if src = dst then c' else c))"
proof (induction q arbitrary: es d src dst)
  case Nil
  then show ?case by simp
next
  case (Cons y q)
  from Cons.prems(3) obtain ds m where d: "d = Some (Dir ds)" "map_of ds y = Some m" "lookup m q = Some (File c')"
    by (cases d rule: is_dir.cases) (auto split: option.splits)
  from Cons.prems(2) obtain n where n: "map_of es y = Some n" "lookup n q = Some (File c)"
    by (auto split: option.splits)
  from Cons.prems(1) have dist: "distinct (map fst es)" by simp
  show ?case
  proof (cases q)
    case Nil
    with n d have "n = File c" "m = File c'" by simp_all
    with d n Nil copy_entries_map_of [OF dist, of src dst ds y] show ?thesis
      by (simp add: split_beta copy2_def)
  next
    case (Cons z q')
    with n obtain sub where sub: "n = Dir sub" by (cases n) auto
    from wf_child [OF Cons.prems(1) n(1)] sub have "wf_node (Dir sub)" by simp
    from Cons.IH [OF this, of "Some m" "src @ [y]" "dst @ [y]"] n(2) d(3) sub
    have "olookup (fst (copytree (src @ [y]) (dst @ [y]) sub (Some m))) q
            = Some (File (if src = dst then c' else c))"
      by simp
    with d n sub copy_entries_map_of [OF dist, of src dst ds y] show ?thesis
      by (cases "fst (copytree (src @ [y]) (dst @ [y]) sub (Some m))") (simp_all add: split_beta)
  qed
qed

text \<open>A copied file changes nothing below its destination, except the entry of its own
  name when the destination is a directory.\<close>

lemma copy2_keeps:
  assumes "copy2 s t c d = Inr n" and "q \<noteq> []" and "q \<noteq> [basename s]"
  shows "lookup n q = olookup d q"
proof -
  from assms(2) obtain z r where q: "q = z # r" by (cases q) auto
  show ?thesis
  proof (cases d)
    case None
    with assms(1) q show ?thesis by (auto simp: copy2_def)
  next
    case (Some dn)
    show ?thesis
    proof (cases dn)
      case (File old)
      with Some assms(1) q show ?thesis by (auto simp: copy2_def split: if_splits)
    next
      case (Dir ds)
      with Some assms(1) have n: "n = Dir (AList.update (basename s) (File c) ds)"
        and old: "\<not> is_dir (map_of ds (basename s))"
        by (auto simp: copy2_def split: option.splits node.splits if_splits)
      show ?thesis
      proof (cases "z = basename s")
        case False
        with n q Some Dir show ?thesis by (simp add: map_of_update)
      next
        case True
        with assms(3) q obtain u r' where r: "r = u # r'" by (cases r) auto
        from old have "(case map_of ds (basename s) of None \<Rightarrow> None | Some m \<Rightarrow> lookup m (u # r')) = None"
          by (cases "map_of ds (basename s)" rule: is_dir.cases) auto
        with n q Some Dir True r show ?thesis by (simp add: map_of_update)
      qed
    qed
  qed
qed

lemma copytree_keeps:
  "wf_node (Dir es) \<Longrightarrow> lookup (Dir es) q = None \<Longrightarrow>
   \<forall>p n. q = p @ [n, n] \<longrightarrow> \<not> is_file (lookup (Dir es) (p @ [n])) \<Longrightarrow>
   olookup (fst (copytree src dst es d)) q = olookup d q"
proof (induction q arbitrary: es d src dst)
  case Nil
  then show ?case by simp
next
  case (Cons y q)
  from Cons.prems(1) have dist: "distinct (map fst es)" by simp
  have main: "olookup (map_of (fst (copy_entries src dst es ds)) y) q = olookup (map_of ds y) q" for ds
  proof (cases "map_of es y")
    case None
    with copy_entries_map_of [OF dist, of src dst ds y] show ?thesis by simp
  next
    case (Some n)
    show ?thesis
    proof (cases n)
      case (File c)
      with Some Cons.prems(2) have q1: "q \<noteq> []" by auto
      have "y # q \<noteq> [] @ [y, y]"
      proof
        assume "y # q = [] @ [y, y]"
        with Cons.prems(3) have "\<not> is_file (lookup (Dir es) ([] @ [y]))" by blast
        with Some File show False by simp
      qed
      then have q2: "q \<noteq> [basename (src @ [y])]" by (simp add: basename_def)
      show ?thesis
      proof (cases "copy2 (src @ [y]) (dst @ [y]) c (map_of ds y)")
        case (Inl e)
        with Some File copy_entries_map_of [OF dist, of src dst ds y] show ?thesis by simp
      next
        case (Inr m)
        from copy2_keeps [OF Inr q1 q2] Inr Some File copy_entries_map_of [OF dist, of src dst ds y]
        show ?thesis by simp
      qed
    next
      case (Dir sub)
      from wf_child [OF Cons.prems(1) Some] Dir have w: "wf_node (Dir sub)" by simp
      from Cons.prems(2) Some Dir have l: "lookup (Dir sub) q = None" by simp
      have "\<forall>p n. q = p @ [n, n] \<longrightarrow> \<not> is_file (lookup (Dir sub) (p @ [n]))"
      proof (intro allI impI)
        fix p n assume "q = p @ [n, n]"
        then have "y # q = (y # p) @ [n, n]" by simp
        with Cons.prems(3) have "\<not> is_file (lookup (Dir es) ((y # p) @ [n]))" by blast
        with Some Dir show "\<not> is_file (lookup (Dir sub) (p @ [n]))" by simp
      qed
      from Cons.IH [OF w l this, of "src @ [y]" "dst @ [y]" "map_of ds y"]
        Some Dir copy_entries_map_of [OF dist, of src dst ds y]
      show ?thesis by simp
    qed
  qed
  have at: "olookup (Some (Dir xs)) (y # q) = olookup (map_of xs y) q" for xs
    by (cases "map_of xs y") simp_all
  show ?case
  proof (cases d)
    case None
    have "olookup (fst (copytree src dst es None)) (y # q)
            = olookup (Some (Dir (fst (copy_entries src dst es [])))) (y # q)"
      by (simp add: split_beta)
    also have "\<dots> = olookup (map_of (fst (copy_entries src dst es [])) y) q" by (rule at)
    also have "\<dots> = olookup (map_of [] y) q" by (rule main)
    finally show ?thesis using None by simp
  next
    case (Some dn)
    show ?thesis
    proof (cases dn)
      case (File c)
      with Some show ?thesis by simp
    next
      case (Dir ds)
      have "olookup (fst (copytree src dst es (Some (Dir ds)))) (y # q)
              = olookup (Some (Dir (fst (copy_entries src dst es ds)))) (y # q)"
        by (simp add: split_beta)
      also have "\<dots> = olookup (map_of (fst (copy_entries src dst es ds)) y) q" by (rule at)
      also have "\<dots> = olookup (map_of ds y) q" by (rule main)
      also have "\<dots> = olookup (Some (Dir ds)) (y # q)" by (rule at [symmetric])
      finally show ?thesis using Some Dir by simp
    qed
  qed
qed

lemma wf_lookup: "wf_node fs \<Longrightarrow> lookup fs p = Some n \<Longrightarrow> wf_node n"
proof (induction p arbitrary: fs)
  case Nil
  then show ?case by simp
next
  case (Cons x p)
  then obtain es c where "fs = Dir es" "map_of es x = Some c" "lookup c p = Some n"
    by (cases fs) (auto split: option.splits)
  with Cons.prems(1) Cons.IH [of c] wf_child [of es x c] show ?case by simp
qed

lemma makedirs_existing: "is_dir (lookup fs p) \<Longrightarrow> makedirs (Some fs) p = Inr fs"
proof (induction p arbitrary: fs)
  case Nil
  then show ?case by (cases fs) simp_all
next
  case (Cons x p)
  then obtain es c where fs: "fs = Dir es" "map_of es x = Some c" "is_dir (lookup c p)"
    by (cases fs) (auto split: option.splits)
  with Cons.IH [of c] show ?case by (simp add: update_triv)
qed

lemma lookup_below_dir: "lookup fs (p @ q) = Some n \<Longrightarrow> q \<noteq> [] \<Longrightarrow> is_dir (lookup fs p)"
proof -
  assume a: "lookup fs (p @ q) = Some n" and q: "q \<noteq> []"
  then obtain m where m: "lookup fs p = Some m" "lookup m q = Some n"
    by (auto simp: lookup_append split: option.splits)
  with q show ?thesis by (cases m; cases q) simp_all
qed

text \<open>A directory copy whose destination holds something below it.\<close>

lemma copy_path_dir_below:
  assumes src: "lookup fs (joinpath sb (rstrip_slash rel)) = Some (Dir es)"
    and below: "lookup fs (joinpath db (rstrip_slash rel) @ q) = Some n" and q: "q \<noteq> []"
  shows "lookup (fst (copy_path sb db rel fs)) (joinpath db (rstrip_slash rel) @ q) =
         olookup (fst (copytree (joinpath sb (rstrip_slash rel)) (joinpath db (rstrip_slash rel)) es
                        (lookup fs (joinpath db (rstrip_slash rel))))) q"
proof -
  let ?src = "joinpath sb (rstrip_slash rel)" and ?dst = "joinpath db (rstrip_slash rel)"
  from lookup_below_dir [OF below q] have d: "is_dir (lookup fs ?dst)" .
  then have mk: "makedirs (Some fs) ?dst = Inr fs" by (rule makedirs_existing)
  from d have par: "is_dir (lookup fs (butlast ?dst))"
  proof (cases "?dst = []")
    case True
    with d show ?thesis by simp
  next
    case False
    then have "?dst = butlast ?dst @ [last ?dst]" by simp
    moreover from d obtain m where "lookup fs ?dst = Some m" by (cases "lookup fs ?dst") auto
    ultimately show ?thesis using lookup_below_dir [of fs "butlast ?dst" "[last ?dst]" m] by simp
  qed
  obtain d' x where ct: "copytree ?src ?dst es (lookup fs ?dst) = (d', x)"
    by (cases "copytree ?src ?dst es (lookup fs ?dst)")
  show ?thesis
  proof (cases d')
    case None
    with ct d have False by (cases "lookup fs ?dst" rule: is_dir.cases) (auto simp: split_beta)
    then show ?thesis ..
  next
    case (Some m)
    with src mk ct have "fst (copy_path sb db rel fs) = store ?dst m fs"
      by (simp add: copy_path_def Let_def)
    with par Some ct show ?thesis by (simp add: lookup_store_below)
  qed
qed

text \<open>Writing keeps a well-formed tree well-formed, so every state that a run passes
  through is.\<close>

lemma wf_Dir_update:
  assumes "wf_node (Dir es)" "wf_node n"
  shows "wf_node (Dir (AList.update k n es))"
proof -
  have "set (AList.update k n es) \<subseteq> insert (k, n) (set es)"
    by (induction es) auto
  with assms show ?thesis by (auto simp: wf_entries_iff distinct_update)
qed

lemma wf_store: "wf_node fs \<Longrightarrow> wf_node n \<Longrightarrow> wf_node (store p n fs)"
proof (induction p arbitrary: fs)
  case Nil
  then show ?case by simp
next
  case (Cons x p)
  show ?case
  proof (cases fs)
    case (File c)
    then show ?thesis by simp
  next
    case (Dir es)
    show ?thesis
    proof (cases "map_of es x")
      case None
      with Dir Cons.prems wf_Dir_update [of es n x] show ?thesis by simp
    next
      case (Some c)
      with Dir Cons.prems have "wf_node c" by (auto intro: wf_child)
      from Cons.IH [OF this Cons.prems(2)] Dir Some Cons.prems wf_Dir_update [of es _ x]
      show ?thesis by simp
    qed
  qed
qed

lemma wf_makedirs:
  "\<forall>n. d = Some n \<longrightarrow> wf_node n \<Longrightarrow> makedirs d p = Inr r \<Longrightarrow> wf_node r"
proof (induction d p arbitrary: r rule: makedirs.induct)
  case (6 es x p)
  from "6.prems" obtain n where n: "makedirs (map_of es x) p = Inr n" "r = Dir (AList.update x n es)"
    by (auto split: sum.splits)
  have "\<forall>m. map_of es x = Some m \<longrightarrow> wf_node m" using "6.prems"(1) by (auto intro: wf_child)
  from "6.IH" [OF this n(1)] n(2) "6.prems"(1) show ?case by (simp add: wf_Dir_update del: wf_node.simps)
qed (auto split: sum.splits)

lemma wf_copy2:
  "\<forall>n. d = Some n \<longrightarrow> wf_node n \<Longrightarrow> copy2 s t c d = Inr r \<Longrightarrow> wf_node r"
proof -
  assume w: "\<forall>n. d = Some n \<longrightarrow> wf_node n" and c: "copy2 s t c d = Inr r"
  show ?thesis
  proof (cases d)
    case None
    with c show ?thesis by (auto simp: copy2_def)
  next
    case (Some n)
    show ?thesis
    proof (cases n)
      case (File old)
      with Some c show ?thesis by (auto simp: copy2_def split: if_splits)
    next
      case (Dir ds)
      with Some w have "wf_node (Dir ds)" by simp
      moreover have "wf_node (File c)" by simp
      ultimately have "wf_node (Dir (AList.update (basename s) (File c) ds))" by (rule wf_Dir_update)
      with Some Dir c show ?thesis
        by (auto simp: copy2_def simp del: wf_node.simps split: option.splits node.splits if_splits)
    qed
  qed
qed

lemma wf_copytree:
  "wf_entries es \<Longrightarrow> \<forall>n. d = Some n \<longrightarrow> wf_node n \<Longrightarrow>
   \<forall>n. fst (copytree src dst es d) = Some n \<longrightarrow> wf_node n"
  "wf_entries es \<Longrightarrow> wf_node (Dir ds) \<Longrightarrow> wf_node (Dir (fst (copy_entries src dst es ds)))"
proof (induction src dst es d and src dst es ds rule: copytree_copy_entries.induct)
  case (1 src dst es)
  then show ?case by (simp add: split_beta)
next
  case (2 src dst es c)
  show ?case by simp
next
  case (3 src dst es ds)
  then show ?case by (simp add: split_beta)
next
  case (4 src dst ds)
  then show ?case by simp
next
  case (5 src dst nm c es ds)
  have child: "\<forall>n. map_of ds nm = Some n \<longrightarrow> wf_node n" using "5.prems"(2) by (auto intro: wf_child)
  from "5.prems"(1) have es: "wf_entries es" by simp
  show ?case
  proof (cases "copy2 (src @ [nm]) (dst @ [nm]) c (map_of ds nm)")
    case (Inl e)
    with "5.IH"(1) [OF Inl es "5.prems"(2)] show ?thesis by (simp add: split_beta)
  next
    case (Inr n)
    from wf_copy2 [OF child Inr] have "wf_node n" .
    from wf_Dir_update [OF "5.prems"(2) this] have "wf_node (Dir (AList.update nm n ds))" .
    from "5.IH"(2) [OF Inr es this] Inr show ?thesis by simp
  qed
next
  case (6 src dst nm sub es ds)
  have child: "\<forall>n. map_of ds nm = Some n \<longrightarrow> wf_node n" using "6.prems"(2) by (auto intro: wf_child)
  from "6.prems"(1) have es: "wf_entries es" and sub: "wf_entries sub" by simp_all
  obtain d' x where ct: "copytree (src @ [nm]) (dst @ [nm]) sub (map_of ds nm) = (d', x)"
    by (cases "copytree (src @ [nm]) (dst @ [nm]) sub (map_of ds nm)")
  from "6.IH"(1) [OF sub child] ct have d': "\<forall>n. d' = Some n \<longrightarrow> wf_node n" by simp
  have "wf_node (Dir (case d' of None \<Rightarrow> ds | Some n \<Rightarrow> AList.update nm n ds))"
  proof (cases d')
    case None
    with "6.prems"(2) show ?thesis by simp
  next
    case (Some n)
    with d' wf_Dir_update [OF "6.prems"(2), of n nm] show ?thesis by simp
  qed
  from "6.IH"(2) [OF ct [symmetric] es this] ct show ?case by (simp add: split_beta)
qed

lemma wf_copy_path:
  assumes "wf_node fs"
  shows "wf_node (fst (copy_path sb db rel fs))"
proof -
  let ?src = "joinpath sb (rstrip_slash rel)" and ?dst = "joinpath db (rstrip_slash rel)"
  have mk: "wf_node fs1" if "makedirs (Some fs) p = Inr fs1" for p fs1
    using wf_makedirs [OF _ that] assms by simp
  have at: "\<forall>n. lookup fs1 ?dst = Some n \<longrightarrow> wf_node n" if "wf_node fs1" for fs1
    using that by (auto intro: wf_lookup)
  show ?thesis
  proof (cases "lookup fs ?src")
    case None
    with assms show ?thesis by (simp add: copy_path_def Let_def)
  next
    case (Some s)
    show ?thesis
    proof (cases s)
      case (Dir es)
      from wf_lookup [OF assms Some] Dir have es: "wf_entries es" by simp
      show ?thesis
      proof (cases "makedirs (Some fs) ?dst")
        case (Inl e)
        with Some Dir assms show ?thesis by (simp add: copy_path_def Let_def)
      next
        case (Inr fs1)
        from mk [OF Inr] have w1: "wf_node fs1" .
        from wf_copytree(1) [OF es at [OF w1], of ?src ?dst] w1 Some Dir Inr
        show ?thesis
          by (auto simp: copy_path_def Let_def split_beta wf_store simp del: wf_node.simps
              split: option.splits)
      qed
    next
      case (File c)
      show ?thesis
      proof (cases "makedirs (Some fs) (butlast ?dst)")
        case (Inl e)
        with Some File assms show ?thesis by (simp add: copy_path_def Let_def)
      next
        case (Inr fs1)
        from mk [OF Inr] have w1: "wf_node fs1" .
        show ?thesis
        proof (cases "copy2 ?src ?dst c (lookup fs1 ?dst)")
          case (Inl e)
          with Some File Inr w1 show ?thesis by (simp add: copy_path_def Let_def)
        next
          case (Inr n)
          from wf_copy2 [OF at [OF w1] Inr] have "wf_node n" .
          with Some File \<open>makedirs (Some fs) (butlast ?dst) = Inr fs1\<close> Inr w1 show ?thesis
            by (simp add: copy_path_def Let_def wf_store del: wf_node.simps)
        qed
      qed
    qed
  qed
qed

lemma wf_run_from: "wf_node fs \<Longrightarrow> wf_node (fst (run_from sb db tot i ps fs))"
proof (induction ps arbitrary: i fs)
  case Nil
  then show ?case by simp
next
  case (Cons r ps)
  obtain fs1 out where cp: "copy_path sb db r fs = (fs1, out)" by (cases "copy_path sb db r fs")
  from wf_copy_path [OF Cons.prems, of sb db r] cp have w: "wf_node fs1" by simp
  from Cons.IH [OF w, of "i + 1"] w cp show ?case
    by (cases out) (simp_all add: split_beta)
qed

lemma wf_run: "wf_node fs \<Longrightarrow> wf_node (fst (run sb db paths fs))"
  unfolding run_def by (rule wf_run_from)

text \<open>
  Claim C1, as amended. Take a well-formed file system, in whatever state the loop
  reaches a relative path whose resolved source is a directory, with resolved source and
  destination that have no component \<^verbatim>\<open>..\<close> and neither of which lies strictly inside
  the other. The round for that path merges: a file that exists at the same place under
  the source and under the destination has the source's content afterwards; and a
  destination file that the source does not have remains, unmodified, unless it is the
  file \<^verbatim>\<open>n/n\<close> of a destination directory \<^verbatim>\<open>n\<close> where the source has a file \<^verbatim>\<open>n\<close>.
\<close>

theorem directory_copy_merges:
  assumes "wf_node fs"
    and "lookup fs (joinpath sb (rstrip_slash rel)) = Some (Dir es)"
    and "\<not> strict_prefix (joinpath sb (rstrip_slash rel)) (joinpath db (rstrip_slash rel))"
    and "\<not> strict_prefix (joinpath db (rstrip_slash rel)) (joinpath sb (rstrip_slash rel))"
    and "''..'' \<notin> set (joinpath sb (rstrip_slash rel))"
    and "''..'' \<notin> set (joinpath db (rstrip_slash rel))"
  shows "(lookup fs (joinpath sb (rstrip_slash rel) @ q) = Some (File c)
          \<and> is_file (lookup fs (joinpath db (rstrip_slash rel) @ q))
          \<longrightarrow> lookup (fst (copy_path sb db rel fs)) (joinpath db (rstrip_slash rel) @ q) = Some (File c))
       \<and> (lookup fs (joinpath db (rstrip_slash rel) @ q) = Some (File c')
          \<and> lookup fs (joinpath sb (rstrip_slash rel) @ q) = None
          \<and> (\<forall>p n. q = p @ [n, n] \<longrightarrow> \<not> is_file (lookup fs (joinpath sb (rstrip_slash rel) @ p @ [n])))
          \<longrightarrow> lookup (fst (copy_path sb db rel fs)) (joinpath db (rstrip_slash rel) @ q) = Some (File c'))"
proof (intro conjI impI)
  let ?src = "joinpath sb (rstrip_slash rel)" and ?dst = "joinpath db (rstrip_slash rel)"
  from wf_lookup [OF assms(1,2)] have w: "wf_node (Dir es)" .
  have src_at: "lookup fs (?src @ p) = lookup (Dir es) p" for p
    using assms(2) by (simp add: lookup_append)
  have dst_at: "lookup fs (?dst @ p) = olookup (lookup fs ?dst) p" for p
    by (cases "lookup fs ?dst") (simp_all add: lookup_append)
  {
    assume h: "lookup fs (?src @ q) = Some (File c) \<and> is_file (lookup fs (?dst @ q))"
    then obtain c0 where c0: "lookup fs (?dst @ q) = Some (File c0)"
      by (cases "lookup fs (?dst @ q)" rule: is_file.cases) auto
    from h assms(2) have q: "q \<noteq> []" by auto
    from h have s: "lookup (Dir es) q = Some (File c)" by (simp add: src_at)
    from c0 have t: "olookup (lookup fs ?dst) q = Some (File c0)" by (simp add: dst_at)
    have "?src = ?dst \<Longrightarrow> c0 = c" using h c0 by simp
    with copytree_overwrites [OF w s t, of ?src ?dst] copy_path_dir_below [OF assms(2) c0 q]
    show "lookup (fst (copy_path sb db rel fs)) (?dst @ q) = Some (File c)" by auto
  }
  {
    assume h: "lookup fs (?dst @ q) = Some (File c') \<and> lookup fs (?src @ q) = None
          \<and> (\<forall>p n. q = p @ [n, n] \<longrightarrow> \<not> is_file (lookup fs (?src @ p @ [n])))"
    with assms(2) have q: "q \<noteq> []" by auto
    from h have s: "lookup (Dir es) q = None" by (simp add: src_at)
    from h have n: "\<forall>p n. q = p @ [n, n] \<longrightarrow> \<not> is_file (lookup (Dir es) (p @ [n]))"
      by (simp add: src_at)
    from h have c0: "lookup fs (?dst @ q) = Some (File c')" by simp
    from copytree_keeps [OF w s n, of ?src ?dst "lookup fs ?dst"]
      copy_path_dir_below [OF assms(2) c0 q] c0
    show "lookup (fst (copy_path sb db rel fs)) (?dst @ q) = Some (File c')" by (simp add: dst_at)
  }
qed

theorem directory_copy_merges_witness:
  "lookup (fst (copy_path [''game''] [''slot''] ''db/'' merge_fs)) [''slot'', ''db'', ''a.txt'']
     = Some (File (Bytes ''hello''))
   \<and> lookup (fst (copy_path [''game''] [''slot''] ''db/'' merge_fs)) [''slot'', ''db'', ''b.txt'']
     = Some (File (Bytes ''mine''))"
proof -
  have w: "wf_node merge_fs" by code_simp
  have j: "joinpath [''game''] (rstrip_slash ''db/'') = [''game'', ''db'']"
    "joinpath [''slot''] (rstrip_slash ''db/'') = [''slot'', ''db'']"
    by code_simp+
  have s: "lookup merge_fs (joinpath [''game''] (rstrip_slash ''db/''))
             = Some (Dir [(''a.txt'', File (Bytes ''hello''))])"
    by code_simp
  have n1: "\<not> strict_prefix (joinpath [''game''] (rstrip_slash ''db/'')) (joinpath [''slot''] (rstrip_slash ''db/''))"
    and n2: "\<not> strict_prefix (joinpath [''slot''] (rstrip_slash ''db/'')) (joinpath [''game''] (rstrip_slash ''db/''))"
    and d1: "''..'' \<notin> set (joinpath [''game''] (rstrip_slash ''db/''))"
    and d2: "''..'' \<notin> set (joinpath [''slot''] (rstrip_slash ''db/''))"
    unfolding j by (simp_all add: strict_prefix_def)
  have a: "lookup merge_fs ([''game'', ''db''] @ [''a.txt'']) = Some (File (Bytes ''hello''))
           \<and> is_file (lookup merge_fs ([''slot'', ''db''] @ [''a.txt'']))"
    by code_simp
  have b: "lookup merge_fs ([''slot'', ''db''] @ [''b.txt'']) = Some (File (Bytes ''mine''))
           \<and> lookup merge_fs ([''game'', ''db''] @ [''b.txt'']) = None"
    by code_simp
  have c: "\<forall>p n. [''b.txt''] = p @ [n, n] \<longrightarrow> \<not> is_file (lookup merge_fs ([''game'', ''db''] @ p @ [n]))"
    by simp
  show ?thesis
    using a b c j
      directory_copy_merges [OF w s n1 n2 d1 d2, of "[''a.txt'']" "Bytes ''hello''" "Bytes ''mine''"]
      directory_copy_merges [OF w s n1 n2 d1 d2, of "[''b.txt'']" "Bytes ''hello''" "Bytes ''mine''"]
    by simp
qed

text \<open>
  Claim C1 as stated keeps every destination file that is not present in the source
  subtree. Where the source has the file \<^verbatim>\<open>d/a\<close> and the destination a directory
  \<^verbatim>\<open>d/a\<close>, \<^verbatim>\<open>shutil.copy2\<close> copies the file into that directory: the destination file
  \<^verbatim>\<open>d/a/a\<close>, which the source does not have, is overwritten, and the run succeeds.
\<close>

theorem directory_copy_merges_counterexample:
  "lookup nested_fs [''game'', ''d''] = Some (Dir [(''a'', File (Bytes ''new''))])
   \<and> lookup nested_fs [''game'', ''d'', ''a'', ''a''] = None
   \<and> lookup nested_fs [''slot'', ''d'', ''a'', ''a''] = Some (File (Bytes ''old''))
   \<and> snd (run [''game''] [''slot''] [''d/''] nested_fs) = [Progress 100, Finished True]
   \<and> lookup (fst (run [''game''] [''slot''] [''d/''] nested_fs)) [''slot'', ''d'', ''a'', ''a'']
       = Some (File (Bytes ''new''))"
  by code_simp

section \<open>What a run leaves alone\<close>

lemma copy_path_frame:
  assumes "\<not> prefix (joinpath db (rstrip_slash rel)) q" and "\<not> prefix q (joinpath db (rstrip_slash rel))"
  shows "lookup (fst (copy_path sb db rel fs)) q = lookup fs q"
proof -
  let ?src = "joinpath sb (rstrip_slash rel)" and ?dst = "joinpath db (rstrip_slash rel)"
  have nb: "\<not> prefix q (butlast ?dst)"
    using assms(2) prefix_order.trans [OF _ prefixeq_butlast [of ?dst]] by blast
  have st: "lookup (store ?dst n fs1) q = lookup fs1 q" for n fs1
    using assms by (rule lookup_store_other)
  show ?thesis
  proof (cases "lookup fs ?src")
    case None
    then show ?thesis by (simp add: copy_path_def Let_def)
  next
    case (Some s)
    show ?thesis
    proof (cases s)
      case (Dir es)
      show ?thesis
      proof (cases "makedirs (Some fs) ?dst")
        case (Inl e)
        with Some Dir show ?thesis by (simp add: copy_path_def Let_def)
      next
        case (Inr fs1)
        from makedirs_frame [OF Inr assms(2)] have "lookup fs1 q = lookup fs q" .
        with Some Dir Inr st show ?thesis
          by (simp add: copy_path_def Let_def split_beta split: option.splits)
      qed
    next
      case (File c)
      show ?thesis
      proof (cases "makedirs (Some fs) (butlast ?dst)")
        case (Inl e)
        with Some File show ?thesis by (simp add: copy_path_def Let_def)
      next
        case (Inr fs1)
        from makedirs_frame [OF Inr nb] have "lookup fs1 q = lookup fs q" .
        with Some File Inr st show ?thesis
          by (simp add: copy_path_def Let_def split: sum.splits)
      qed
    qed
  qed
qed

lemma run_from_frame:
  "\<forall>r \<in> set paths. \<not> prefix (joinpath db (rstrip_slash r)) q \<and> \<not> prefix q (joinpath db (rstrip_slash r))
   \<Longrightarrow> lookup (fst (run_from sb db tot i paths fs)) q = lookup fs q"
proof (induction paths arbitrary: i fs)
  case Nil
  show ?case by simp
next
  case (Cons r paths)
  obtain fs1 out where cp: "copy_path sb db r fs = (fs1, out)" by (cases "copy_path sb db r fs")
  from Cons.prems copy_path_frame [of db r q sb fs] cp have one: "lookup fs1 q = lookup fs q"
    by simp
  from Cons.prems have rest: "lookup (fst (run_from sb db tot (i + 1) paths fs1)) q = lookup fs1 q"
    by (intro Cons.IH) simp
  show ?case
  proof (cases out)
    case Skipped
    with cp one rest show ?thesis by simp
  next
    case Copied
    with cp one rest show ?thesis by (simp add: split_beta)
  next
    case (Failed e)
    with cp one show ?thesis by simp
  qed
qed

lemma relative_below_root: "relative_path rel \<Longrightarrow> prefix db (joinpath db (rstrip_slash rel))"
  by (auto simp: relative_path_def joinpath_def split: list.splits)

text \<open>
  Claim C9, as amended. For listed paths that resolve, at the source and at the
  destination, to paths without a component \<^verbatim>\<open>..\<close>: whether a run succeeds, skips or
  aborts, whatever lies neither inside a resolved destination of a listed path nor on the
  way to one is the same before and after. In particular the source root is unchanged
  when the listed paths are relative and neither root lies inside the other.
\<close>

theorem sync_writes_only_at_destinations:
  assumes "\<forall>r \<in> set paths. ''..'' \<notin> set (joinpath sb (rstrip_slash r))
                          \<and> ''..'' \<notin> set (joinpath db (rstrip_slash r))"
  shows "((\<forall>r \<in> set paths. \<not> prefix (joinpath db (rstrip_slash r)) q \<and> \<not> prefix q (joinpath db (rstrip_slash r)))
      \<longrightarrow> lookup (fst (run sb db paths fs)) q = lookup fs q)
   \<and> ((\<forall>r \<in> set paths. relative_path r) \<and> \<not> prefix sb db \<and> \<not> prefix db sb
      \<longrightarrow> lookup (fst (run sb db paths fs)) sb = lookup fs sb)"
proof (intro conjI impI)
  assume "\<forall>r \<in> set paths. \<not> prefix (joinpath db (rstrip_slash r)) q \<and> \<not> prefix q (joinpath db (rstrip_slash r))"
  then show "lookup (fst (run sb db paths fs)) q = lookup fs q"
    unfolding run_def by (rule run_from_frame)
next
  assume h: "(\<forall>r \<in> set paths. relative_path r) \<and> \<not> prefix sb db \<and> \<not> prefix db sb"
  have "\<forall>r \<in> set paths. \<not> prefix (joinpath db (rstrip_slash r)) sb \<and> \<not> prefix sb (joinpath db (rstrip_slash r))"
  proof
    fix r assume "r \<in> set paths"
    with h have p: "prefix db (joinpath db (rstrip_slash r))" by (simp add: relative_below_root)
    have "\<not> prefix (joinpath db (rstrip_slash r)) sb"
      using p h prefix_order.trans by blast
    moreover have "\<not> prefix sb (joinpath db (rstrip_slash r))"
      using p h prefix_same_cases by blast
    ultimately show "\<not> prefix (joinpath db (rstrip_slash r)) sb \<and> \<not> prefix sb (joinpath db (rstrip_slash r))" ..
  qed
  then show "lookup (fst (run sb db paths fs)) sb = lookup fs sb"
    unfolding run_def by (rule run_from_frame)
qed

theorem sync_writes_only_at_destinations_witness:
  "lookup (fst (run [''game''] [''slot''] [''d/'', ''gone'', ''keep''] nested_fs)) [''game'']
     = lookup nested_fs [''game'']
   \<and> lookup (fst (run [''game''] [''slot''] [''db/'', ''log.txt''] merge_fs)) [''game'']
     = lookup merge_fs [''game'']
   \<and> lookup (fst (run [''game''] [''slot''] [''log.txt''] merge_fs)) [''slot'', ''db'']
     = lookup merge_fs [''slot'', ''db'']"
proof -
  have n1: "\<forall>r \<in> set [''d/'', ''gone'', ''keep'']. ''..'' \<notin> set (joinpath [''game''] (rstrip_slash r))
              \<and> ''..'' \<notin> set (joinpath [''slot''] (rstrip_slash r))"
    and n2: "\<forall>r \<in> set [''db/'', ''log.txt'']. ''..'' \<notin> set (joinpath [''game''] (rstrip_slash r))
              \<and> ''..'' \<notin> set (joinpath [''slot''] (rstrip_slash r))"
    and n3: "\<forall>r \<in> set [''log.txt'']. ''..'' \<notin> set (joinpath [''game''] (rstrip_slash r))
              \<and> ''..'' \<notin> set (joinpath [''slot''] (rstrip_slash r))"
    by code_simp+
  have a: "\<forall>r \<in> set [''d/'', ''gone'', ''keep'']. relative_path r"
    "\<forall>r \<in> set [''db/'', ''log.txt'']. relative_path r"
    by (simp_all add: relative_path_def rstrip_slash_def)
  have b: "\<not> prefix [''game''] [''slot''] \<and> \<not> prefix [''slot''] [''game'']" by simp
  have c: "\<forall>r \<in> set [''log.txt'']. \<not> prefix (joinpath [''slot''] (rstrip_slash r)) [''slot'', ''db'']
              \<and> \<not> prefix [''slot'', ''db''] (joinpath [''slot''] (rstrip_slash r))"
    by (simp add: joinpath_def rstrip_slash_def parts_def)
  show ?thesis
    using a b c
      sync_writes_only_at_destinations [OF n1, of "[''game'']" nested_fs]
      sync_writes_only_at_destinations [OF n2, of "[''game'']" merge_fs]
      sync_writes_only_at_destinations [OF n3, of "[''slot'', ''db'']" merge_fs]
    by simp
qed

text \<open>
  Claim C9 as stated has the source root unmodified by every call. With the destination
  root \<^verbatim>\<open>/game/saved\<close> inside the source root \<^verbatim>\<open>/game\<close>, copying \<^verbatim>\<open>log.txt\<close>
  adds \<^verbatim>\<open>saved/log.txt\<close> to the source root.
\<close>

theorem source_root_modified_counterexample:
  "lookup scenario_fs [''game''] =
     Some (Dir [(''db'', Dir [(''a.txt'', File (Bytes ''hello''))]), (''log.txt'', File (Bytes ''abc''))])
   \<and> run [''game''] [''game'', ''saved''] [''log.txt''] scenario_fs =
     (Dir [(''game'', Dir [(''db'', Dir [(''a.txt'', File (Bytes ''hello''))]),
                          (''log.txt'', File (Bytes ''abc'')),
                          (''saved'', Dir [(''log.txt'', File (Bytes ''abc''))])]),
           (''slot'', Dir [])],
      [Progress 100, Finished True])"
  by code_simp

section \<open>Properties of the progress reports\<close>

subsection \<open>Rounding to a double\<close>




















subsection \<open>The reports of a run\<close>








end
